theory Spec2Isabelle
  imports Main
begin

section \<open>The CSV utility: the watch callback of \<open>handleStream\<close> and the filter of \<open>handleSearch\<close>\<close>

text \<open>
  The program is one TypeScript file, \<open>src/index.ts\<close>. Two of its functions carry logic:
  \<open>handleStream\<close>, which registers a listener on \<open>fs.watch\<close> that prints the records found
  in the bytes a file has grown by, and \<open>handleSearch\<close>, which filters the parsed records
  of a file by a search term.

  The listener closes over two variables, \<open>lastSize\<close> and \<open>headers\<close>. It is an \<open>async\<close>
  function that nothing awaits and nothing catches. Three things follow, and each has its
  place below.
  \<^item> A run reads the file more than once: \<open>statSync\<close> gives the size, and the read streams
    deliver their bytes later. \<open>callback\<close> takes what the run sees of the file at each of
    these moments; \<open>watch_callback\<close> is the case of a file that does not change during
    the run.
  \<^item> An error thrown in a run is an unhandled rejection, which ends the process.
    \<open>session\<close> is a sequence of runs that ends with the first run that throws.
  \<^item> A run is suspended at each \<open>for await\<close>, and another run can start meanwhile and
    read \<open>lastSize\<close> and \<open>headers\<close> as they are then. \<open>exec\<close> interleaves the parts of
    runs; \<open>callback\<close> is a run that no other run overlaps.
\<close>

subsection \<open>The library boundary: csv-parse\<close>

text \<open>
  \<open>csv-parse\<close> is a dependency, not code of the repository. A parser, fed the bytes of a
  read stream, hands the \<open>for await\<close> loop records (each a list of fields) and may end
  with an error, which the loop rethrows. The callback uses two configurations,
  \<open>parse({})\<close> and \<open>parse({ to_line: 1 })\<close>; both are parameters of the model.
\<close>

datatype error = ENOENT | InvalidRecordLength nat nat

record parse_result =
  records :: "string list list"
  failure :: "error option"

record csv_lib =
  parse :: "string \<Rightarrow> parse_result"
  parse_to_line_1 :: "string \<Rightarrow> parse_result"

subsection \<open>The state and the effects of the callback\<close>

record watch_state =
  lastSize :: nat
  headers :: "string list"

datatype fs_event = Change | Rename

text \<open>
  \<open>NewRow hs r\<close> is the table printed under "New row detected!", with head \<open>hs\<close> and the
  single row \<open>r\<close>; \<open>LogInfo l\<close> is \<open>p.log.info(l)\<close>. \<open>ReadRange a b\<close> is
  \<open>createReadStream(filePath, { start: a, end: b })\<close> and \<open>ReadFile\<close> is
  \<open>createReadStream(filePath)\<close>.
\<close>

datatype shown = NewRow "string list" "string list" | LogInfo string

datatype read_op = ReadRange nat nat | ReadFile

record outcome =
  after :: watch_state
  emitted :: "shown list"
  opened :: "read_op list"
  thrown :: "error option"

text \<open>\<open>Array.prototype.join\<close> on an array of strings.\<close>

fun join :: "string \<Rightarrow> string list \<Rightarrow> string" where
  "join sep [] = []"
| "join sep [x] = x"
| "join sep (x # y # ys) = x @ sep @ join sep (y # ys)"

text \<open>
  A read stream with \<open>start\<close> and \<open>end\<close> delivers the bytes at the positions \<open>start\<close> to
  \<open>end\<close>, both included, as far as the file has them.
\<close>

definition createReadStream :: "string \<Rightarrow> nat \<Rightarrow> nat \<Rightarrow> string" where
  "createReadStream bytes start fin = take (Suc fin - start) (drop start bytes)"

text \<open>The body of the loop over the parser's records (lines 130 to 139).\<close>

definition show_record :: "string list \<Rightarrow> string list \<Rightarrow> shown" where
  "show_record hs r = (if length hs > 0 then NewRow hs r else LogInfo (join '', '' r))"

definition unchanged :: "watch_state \<Rightarrow> outcome" where
  "unchanged s = \<lparr>after = s, emitted = [], opened = [], thrown = None\<rparr>"

subsection \<open>One run of the callback\<close>

text \<open>
  What one run sees of the file: the size \<open>statSync\<close> returns at line 112 (\<open>None\<close> when
  there is no file at the path), the content when the stream of line 114 reads it, and
  the content when the stream of line 121 reads it. The file is taken to exist when the
  streams read it.
\<close>

record file_view =
  stat_size :: "nat option"
  range_bytes :: string
  header_bytes :: string

text \<open>
  Lines 114 to 141, run when the size is above \<open>lastSize\<close>. Line 116 passes the size as
  the stream's \<open>end\<close>, which is inclusive. The header loop pushes the fields of every
  record of the header stream onto \<open>headers\<close>; an error of either stream leaves the
  callback before line 141, so \<open>lastSize\<close> is not assigned.
\<close>

definition on_growth :: "csv_lib \<Rightarrow> watch_state \<Rightarrow> nat \<Rightarrow> string \<Rightarrow> string \<Rightarrow> outcome" where
  "on_growth lib s sz rbytes hbytes =
    (let chunk = createReadStream rbytes (lastSize s) sz;
         resolve = (length (headers s) = 0 \<and> lastSize s = 0);
         hres = parse_to_line_1 lib hbytes;
         hs = (if resolve then headers s @ concat (records hres) else headers s);
         rd = ReadRange (lastSize s) sz # (if resolve then [ReadFile] else [])
     in if resolve \<and> failure hres \<noteq> None
        then \<lparr>after = s\<lparr>headers := hs\<rparr>, emitted = [], opened = rd, thrown = failure hres\<rparr>
        else (let res = parse lib chunk;
                  rows = map (show_record hs) (records res)
              in case failure res of
                   Some e \<Rightarrow>
                     \<lparr>after = s\<lparr>headers := hs\<rparr>, emitted = rows, opened = rd, thrown = Some e\<rparr>
                 | None \<Rightarrow>
                     \<lparr>after = \<lparr>lastSize = sz, headers = hs\<rparr>, emitted = rows, opened = rd,
                      thrown = None\<rparr>))"

text \<open>
  The callback (lines 110 to 144), as a run that no other run overlaps. \<open>statSync\<close>
  throws \<open>ENOENT\<close> when the path does not exist; nothing in the callback catches it.
\<close>

definition callback :: "csv_lib \<Rightarrow> watch_state \<Rightarrow> fs_event \<Rightarrow> file_view \<Rightarrow> outcome" where
  "callback lib s event v =
    (if event = Change then
       (case stat_size v of
          None \<Rightarrow> \<lparr>after = s, emitted = [], opened = [], thrown = Some ENOENT\<rparr>
        | Some sz \<Rightarrow>
            if sz > lastSize s then on_growth lib s sz (range_bytes v) (header_bytes v)
            else unchanged s)
     else unchanged s)"

text \<open>
  The view of a file that does not change during the run (\<open>None\<close>: no file at the path),
  and the run of the callback on such a file.
\<close>

definition stable :: "string option \<Rightarrow> file_view" where
  "stable file =
     (case file of
        None \<Rightarrow> \<lparr>stat_size = None, range_bytes = [], header_bytes = []\<rparr>
      | Some bytes \<Rightarrow> \<lparr>stat_size = Some (length bytes), range_bytes = bytes, header_bytes = bytes\<rparr>)"

definition watch_callback :: "csv_lib \<Rightarrow> watch_state \<Rightarrow> fs_event \<Rightarrow> string option \<Rightarrow> outcome" where
  "watch_callback lib s event file = callback lib s event (stable file)"

text \<open>Line 107 and 108: the state when the watch starts on a file with content \<open>bytes\<close>.\<close>

definition handleStream_start :: "string \<Rightarrow> watch_state" where
  "handleStream_start bytes = \<lparr>lastSize = length bytes, headers = []\<rparr>"

subsection \<open>Runs one after the other\<close>

text \<open>
  \<open>run\<close>: the callback on one notification after the other, on files that do not change
  during a run, each run started from the state the one before it left, also after a run
  that threw. The sessions of the program in which every run has finished before the
  next notification arrives are the prefixes of these lists up to the first throw, so
  what holds of every outcome of every \<open>run\<close> holds of every such session.
\<close>

fun run :: "csv_lib \<Rightarrow> watch_state \<Rightarrow> (fs_event \<times> string option) list \<Rightarrow> outcome list" where
  "run lib s [] = []"
| "run lib s (e # es) =
     (let out = watch_callback lib s (fst e) (snd e) in out # run lib (after out) es)"

text \<open>
  \<open>session\<close>: the runs of the program when every run has finished before the next
  notification arrives. The list ends with the first run that throws: the rejection is
  not handled, the process ends, and the notifications that follow are never served.
\<close>

fun session :: "csv_lib \<Rightarrow> watch_state \<Rightarrow> (fs_event \<times> file_view) list \<Rightarrow> outcome list" where
  "session lib s [] = []"
| "session lib s (e # es) =
     (let out = callback lib s (fst e) (snd e)
      in out # (case thrown out of None \<Rightarrow> session lib (after out) es | Some err \<Rightarrow> []))"

subsection \<open>Runs that overlap\<close>

text \<open>
  A run that sees growth goes on to its first \<open>await\<close> without interruption: it has
  then read \<open>lastSize\<close> and \<open>headers\<close> (lines 113, 115 and 120) and created its streams.
  \<open>begin_run\<close> is that part; what the streams will deliver is fixed by the view of the
  file. The run is then suspended, at the header loop when line 120 held, else at the
  loop over the rows. When it is resumed at the header loop it pushes the header fields
  onto \<open>headers\<close> as that variable is then (line 125) and waits at the rows; resumed at
  the rows it prints them under \<open>headers\<close> as it is then and assigns \<open>lastSize\<close> (line
  141). An error of a stream ends the process, and nothing happens after that. Between
  the parts of one run the parts of other runs may come; the records of one loop are
  taken in one part. \<open>Notify\<close> is the arrival of a notification, \<open>Resume i\<close> the next
  part of the suspended run at position \<open>i\<close>, and \<open>boot\<close> the process when the watch
  has started.
\<close>

datatype stage = AtHeader | AtRows

record pending_run =
  run_size :: nat
  run_header :: parse_result
  run_rows :: parse_result
  run_stage :: stage

definition begin_run :: "csv_lib \<Rightarrow> watch_state \<Rightarrow> nat \<Rightarrow> string \<Rightarrow> string \<Rightarrow> pending_run" where
  "begin_run lib s sz rbytes hbytes =
     \<lparr>run_size = sz,
      run_header = parse_to_line_1 lib hbytes,
      run_rows = parse lib (createReadStream rbytes (lastSize s) sz),
      run_stage = (if length (headers s) = 0 \<and> lastSize s = 0 then AtHeader else AtRows)\<rparr>"

record process =
  vars :: watch_state
  suspended :: "pending_run list"
  console :: "shown list"
  crashed :: "error option"

datatype action = Notify fs_event file_view | Resume nat

definition without :: "nat \<Rightarrow> 'a list \<Rightarrow> 'a list" where
  "without i xs = take i xs @ drop (Suc i) xs"

definition resume :: "process \<Rightarrow> nat \<Rightarrow> process" where
  "resume p i =
    (let r = suspended p ! i in
     case run_stage r of
       AtHeader \<Rightarrow>
         (let hs = headers (vars p) @ concat (records (run_header r)) in
          case failure (run_header r) of
            Some e \<Rightarrow>
              p\<lparr>vars := (vars p)\<lparr>headers := hs\<rparr>, suspended := without i (suspended p),
                crashed := Some e\<rparr>
          | None \<Rightarrow>
              p\<lparr>vars := (vars p)\<lparr>headers := hs\<rparr>,
                suspended := (suspended p)[i := r\<lparr>run_stage := AtRows\<rparr>]\<rparr>)
     | AtRows \<Rightarrow>
         (let rows = map (show_record (headers (vars p))) (records (run_rows r)) in
          case failure (run_rows r) of
            Some e \<Rightarrow>
              p\<lparr>suspended := without i (suspended p), console := console p @ rows,
                crashed := Some e\<rparr>
          | None \<Rightarrow>
              p\<lparr>vars := (vars p)\<lparr>lastSize := run_size r\<rparr>,
                suspended := without i (suspended p), console := console p @ rows\<rparr>))"

definition step :: "csv_lib \<Rightarrow> process \<Rightarrow> action \<Rightarrow> process" where
  "step lib p a =
    (if crashed p \<noteq> None then p
     else case a of
       Notify event v \<Rightarrow>
         (if event = Change then
            (case stat_size v of
               None \<Rightarrow> p\<lparr>crashed := Some ENOENT\<rparr>
             | Some sz \<Rightarrow>
                 if sz > lastSize (vars p)
                 then p\<lparr>suspended := suspended p @
                        [begin_run lib (vars p) sz (range_bytes v) (header_bytes v)]\<rparr>
                 else p)
          else p)
     | Resume i \<Rightarrow> (if i < length (suspended p) then resume p i else p))"

definition exec :: "csv_lib \<Rightarrow> process \<Rightarrow> action list \<Rightarrow> process" where
  "exec lib p acts = foldl (step lib) p acts"

definition boot :: "watch_state \<Rightarrow> process" where
  "boot s = \<lparr>vars = s, suspended = [], console = [], crashed = None\<rparr>"

subsection \<open>A model of csv-parse on plain input\<close>

text \<open>
  For the scenarios, the two parser configurations are modelled on input without quotes
  and carriage returns, where csv-parse with its default options does this: records end
  at a line feed, a last line without line feed is a record when it is not empty, fields
  are separated by commas, an empty line is the record of one empty field, and the
  number of fields of the first record is required of every later record
  (\<open>relax_column_count\<close> is off), the first record of another length ending the stream with
  an error. How many of the records before that one reach the loop depends on when the
  stream is destroyed: \<open>d\<close> is their number, and \<open>csv\<close> is the case where none does.
  With \<open>to_line: 1\<close> the parser stops after the first line.
\<close>

definition plain :: "string \<Rightarrow> bool" where
  "plain bytes = (CHR 0x22 \<notin> set bytes \<and> CHR 0x0D \<notin> set bytes)"

fun split_on :: "char \<Rightarrow> string \<Rightarrow> string list" where
  "split_on d [] = [[]]"
| "split_on d (c # cs) =
     (if c = d then [] # split_on d cs
      else (case split_on d cs of [] \<Rightarrow> [[c]] | p # ps \<Rightarrow> (c # p) # ps))"

definition csv_lines :: "string \<Rightarrow> string list" where
  "csv_lines bytes =
     (let ps = split_on (CHR 0x0A) bytes in if last ps = [] then butlast ps else ps)"

definition accept_records :: "nat \<Rightarrow> nat \<Rightarrow> string list list \<Rightarrow> parse_result" where
  "accept_records d n rs =
     (case find (\<lambda>r. length r \<noteq> n) rs of
        None \<Rightarrow> \<lparr>records = rs, failure = None\<rparr>
      | Some bad \<Rightarrow>
          \<lparr>records = take d (takeWhile (\<lambda>r. length r = n) rs),
           failure = Some (InvalidRecordLength n (length bad))\<rparr>)"

definition csv_records :: "string \<Rightarrow> string list list" where
  "csv_records bytes = map (split_on (CHR '','')) (csv_lines bytes)"

definition csv_parse :: "nat \<Rightarrow> string \<Rightarrow> parse_result" where
  "csv_parse d bytes =
     (case csv_records bytes of
        [] \<Rightarrow> \<lparr>records = [], failure = None\<rparr>
      | r # rs \<Rightarrow> accept_records d (length r) (r # rs))"

definition csv_parse_to_line_1 :: "string \<Rightarrow> parse_result" where
  "csv_parse_to_line_1 bytes = \<lparr>records = take 1 (csv_records bytes), failure = None\<rparr>"

definition csv_delivering :: "nat \<Rightarrow> csv_lib" where
  "csv_delivering d = \<lparr>parse = csv_parse d, parse_to_line_1 = csv_parse_to_line_1\<rparr>"

definition csv :: csv_lib where
  "csv = csv_delivering 0"

subsection \<open>The offset the specification describes\<close>

text \<open>
  Following the specification's words, for comparison with the code: the fragment is the
  text after the last record separator, and the offset after reading a file from its
  start is the size of the file less the length of the fragment.
\<close>

definition spec_fragment :: "string \<Rightarrow> string" where
  "spec_fragment bytes = last (split_on (CHR 0x0A) bytes)"

definition spec_offset :: "string \<Rightarrow> nat" where
  "spec_offset bytes = length bytes - length (spec_fragment bytes)"

subsection \<open>The search\<close>

text \<open>
  With \<open>columns: true\<close> a record is an object from column names to strings, here the list
  of its properties in order. \<open>String.prototype.toLowerCase\<close> is a parameter of the model;
  \<open>ascii_toLowerCase\<close> is what it does on ASCII text. \<open>str_includes s t\<close> is \<open>s.includes(t)\<close>.
\<close>

type_synonym csv_record = "(string \<times> string) list"

definition Object_keys :: "csv_record \<Rightarrow> string list" where
  "Object_keys r = map fst r"

definition Object_values :: "csv_record \<Rightarrow> string list" where
  "Object_values r = map snd r"

fun starts_with :: "string \<Rightarrow> string \<Rightarrow> bool" where
  "starts_with s [] = True"
| "starts_with [] (c # t) = False"
| "starts_with (a # s) (c # t) = (a = c \<and> starts_with s t)"

fun str_includes :: "string \<Rightarrow> string \<Rightarrow> bool" where
  "str_includes [] t = starts_with [] t"
| "str_includes (a # s) t = (starts_with (a # s) t \<or> str_includes s t)"

definition ascii_toLowerCase :: "string \<Rightarrow> string" where
  "ascii_toLowerCase s =
     map (\<lambda>c. if (65::nat) \<le> of_char c \<and> of_char c \<le> (90::nat)
              then char_of (of_char c + (32::nat)) else c) s"

text \<open>Lines 50 to 52: the test of one record.\<close>

definition found :: "(string \<Rightarrow> string) \<Rightarrow> string \<Rightarrow> csv_record \<Rightarrow> bool" where
  "found toLowerCase lowerCaseSearch r =
     list_ex (\<lambda>v. str_includes (toLowerCase v) lowerCaseSearch) (Object_values r)"

text \<open>Lines 46 to 56: the loop that collects the results.\<close>

definition search_results :: "(string \<Rightarrow> string) \<Rightarrow> csv_record list \<Rightarrow> string \<Rightarrow> csv_record list" where
  "search_results toLowerCase parsed searchTerm =
     filter (found toLowerCase (toLowerCase searchTerm)) parsed"

text \<open>
  Lines 58 to 81: what is displayed. \<open>NoMatchingRows\<close> is the message
  "No matching rows found."; \<open>ResultTable head rows n\<close> is the table and the count line.
\<close>

datatype search_output = NoMatchingRows | ResultTable "string list" "string list list" nat

definition handleSearch :: "(string \<Rightarrow> string) \<Rightarrow> csv_record list \<Rightarrow> string \<Rightarrow> search_output" where
  "handleSearch toLowerCase parsed searchTerm =
     (case search_results toLowerCase parsed searchTerm of
        [] \<Rightarrow> NoMatchingRows
      | r # rs \<Rightarrow> ResultTable (Object_keys r) (map Object_values (r # rs)) (length (r # rs)))"

subsection \<open>Predicates on what a run did\<close>


definition reads_from :: "nat \<Rightarrow> read_op \<Rightarrow> bool" where
  "reads_from n op = (case op of ReadRange a b \<Rightarrow> n \<le> a | ReadFile \<Rightarrow> n = 0)"


section \<open>Lemmas on the model of csv-parse\<close>

lemmas callback_defs = watch_callback_def callback_def stable_def on_growth_def unchanged_def
  createReadStream_def show_record_def handleStream_start_def Let_def

lemmas csv_defs = csv_def csv_delivering_def csv_parse_def csv_parse_to_line_1_def
  csv_records_def csv_lines_def accept_records_def

lemmas exec_defs = exec_def step_def resume_def begin_run_def boot_def without_def stable_def
  createReadStream_def show_record_def handleStream_start_def Let_def

lemma parse_csv: "parse csv = csv_parse 0"
  by (simp add: csv_def csv_delivering_def)

lemma parse_to_line_1_csv: "parse_to_line_1 csv = csv_parse_to_line_1"
  by (simp add: csv_def csv_delivering_def)

lemma createReadStream_tail:
  "createReadStream (pre @ x) (length pre) (length (pre @ x)) = x"
  by (simp add: createReadStream_def)

lemma split_on_not_Nil: "split_on d xs \<noteq> []"
  by (induction xs) (auto split: list.splits)

lemma split_on_append_sep: "split_on d (xs @ d # ys) = split_on d xs @ split_on d ys"
proof (induction xs)
  case Nil
  show ?case by simp
next
  case (Cons x xs)
  obtain p ps where ps: "split_on d xs = p # ps"
    using split_on_not_Nil [of d xs] by (cases "split_on d xs") auto
  show ?case using Cons ps by simp
qed

lemma csv_lines_Nil: "csv_lines [] = []"
  by (simp add: csv_lines_def)

lemma csv_lines_append_sep:
  "csv_lines (xs @ CHR 0x0A # ys) = split_on (CHR 0x0A) xs @ csv_lines ys"
  using split_on_not_Nil [of "CHR 0x0A" ys]
  by (simp add: csv_lines_def split_on_append_sep Let_def butlast_append)

lemma csv_lines_terminated: "csv_lines (xs @ [CHR 0x0A]) = split_on (CHR 0x0A) xs"
  using csv_lines_append_sep [of xs "[]"] by (simp add: csv_lines_Nil)

lemma csv_lines_boundary:
  assumes "a = [] \<or> last a = CHR 0x0A"
  shows "csv_lines (a @ b) = csv_lines a @ csv_lines b"
proof (cases "a = []")
  case True
  then show ?thesis by (simp add: csv_lines_Nil)
next
  case False
  with assms have a: "a = butlast a @ [CHR 0x0A]"
    by (metis append_butlast_last_id)
  have "csv_lines (a @ b) = csv_lines (butlast a @ CHR 0x0A # b)"
    using a by (metis append_Cons append_Nil append_assoc)
  also have "\<dots> = split_on (CHR 0x0A) (butlast a) @ csv_lines b"
    by (rule csv_lines_append_sep)
  also have "split_on (CHR 0x0A) (butlast a) = csv_lines a"
    using a csv_lines_terminated [of "butlast a"] by simp
  finally show ?thesis .
qed

lemma csv_records_boundary:
  "a = [] \<or> last a = CHR 0x0A \<Longrightarrow> csv_records (a @ b) = csv_records a @ csv_records b"
  by (simp add: csv_records_def csv_lines_boundary)

lemma csv_records_terminated_not_Nil:
  assumes "a \<noteq> []" and "last a = CHR 0x0A"
  shows "csv_records a \<noteq> []"
proof -
  have "a = butlast a @ [CHR 0x0A]"
    using assms by (metis append_butlast_last_id)
  then have "csv_lines a = split_on (CHR 0x0A) (butlast a)"
    using csv_lines_terminated [of "butlast a"] by simp
  then show ?thesis
    using split_on_not_Nil [of "CHR 0x0A" "butlast a"] by (simp add: csv_records_def)
qed

lemma accept_records_ok:
  "failure (accept_records d n rs) = None \<longleftrightarrow> (\<forall>r \<in> set rs. length r = n)"
  by (auto simp: accept_records_def find_None_iff find_Some_iff split: option.splits)

lemma accept_records_all:
  "failure (accept_records d n rs) = None \<Longrightarrow> records (accept_records d n rs) = rs"
  by (auto simp: accept_records_def split: option.splits)

lemma csv_parse_ok:
  "failure (csv_parse d x) = None \<longleftrightarrow>
     (\<forall>r \<in> set (csv_records x). length r = length (hd (csv_records x)))"
  by (auto simp: csv_parse_def accept_records_ok Let_def split: list.splits)

lemma csv_parse_records:
  "failure (csv_parse d x) = None \<Longrightarrow> records (csv_parse d x) = csv_records x"
  by (auto simp: csv_parse_def accept_records_all accept_records_ok Let_def split: list.splits if_splits)

lemma csv_parse_boundary:
  assumes "a = [] \<or> last a = CHR 0x0A" and "failure (csv_parse d (a @ b)) = None"
  shows "failure (csv_parse d a) = None" and "failure (csv_parse d b) = None"
    and "records (csv_parse d (a @ b)) = records (csv_parse d a) @ records (csv_parse d b)"
proof -
  have split: "csv_records (a @ b) = csv_records a @ csv_records b"
    using assms(1) by (rule csv_records_boundary)
  define n where "n = length (hd (csv_records (a @ b)))"
  have all: "\<forall>r \<in> set (csv_records a @ csv_records b). length r = n"
    using assms(2) unfolding csv_parse_ok n_def split by simp
  show a: "failure (csv_parse d a) = None"
    unfolding csv_parse_ok using all by (cases "csv_records a") auto
  show b: "failure (csv_parse d b) = None"
    unfolding csv_parse_ok using all by (cases "csv_records b") auto
  show "records (csv_parse d (a @ b)) = records (csv_parse d a) @ records (csv_parse d b)"
    using a b assms(2) split by (simp add: csv_parse_records)
qed

lemma split_on_no_sep: "d \<notin> set xs \<Longrightarrow> split_on d xs = [xs]"
  by (induction xs) auto

lemma csv_records_one_line:
  "x \<noteq> [] \<Longrightarrow> CHR 0x0A \<notin> set x \<Longrightarrow> csv_records x = [split_on (CHR '','') x]"
  by (simp add: csv_records_def csv_lines_def split_on_no_sep)

section \<open>One run of the callback\<close>

lemma watch_callback_no_growth:
  "length bytes \<le> lastSize s \<Longrightarrow> watch_callback lib s ev (Some bytes) = unchanged s"
  by (simp add: watch_callback_def callback_def stable_def)

lemma growth_csv:
  assumes "lastSize s = length pre" and "x \<noteq> []" and "failure (parse csv x) = None"
  shows "watch_callback csv s Change (Some (pre @ x)) =
    (let hs = (if headers s = [] \<and> lastSize s = 0
               then concat (take 1 (csv_records (pre @ x))) else headers s)
     in \<lparr>after = \<lparr>lastSize = length (pre @ x), headers = hs\<rparr>,
         emitted = map (show_record hs) (csv_records x),
         opened = ReadRange (length pre) (length (pre @ x)) #
                  (if headers s = [] \<and> lastSize s = 0 then [ReadFile] else []),
         thrown = None\<rparr>)"
proof -
  have chunk: "createReadStream (pre @ x) (length pre) (length pre + length x) = x"
    by (simp add: createReadStream_def)
  have ok: "failure (csv_parse 0 x) = None"
    using assms(3) by (simp add: parse_csv)
  have recs: "records (csv_parse 0 x) = csv_records x"
    using ok by (rule csv_parse_records)
  show ?thesis
    using assms(2)
    by (simp add: watch_callback_def callback_def stable_def on_growth_def Let_def parse_csv
        parse_to_line_1_csv csv_parse_to_line_1_def assms(1) chunk recs ok)
qed

lemma unterminated_line_emitted:
  assumes "lastSize s = length pre" and "x \<noteq> []" and "CHR 0x0A \<notin> set x"
  shows "emitted (watch_callback csv s Change (Some (pre @ x))) =
           [show_record (headers (after (watch_callback csv s Change (Some (pre @ x)))))
              (split_on (CHR '','') x)]
       \<and> lastSize (after (watch_callback csv s Change (Some (pre @ x)))) = length (pre @ x)"
proof -
  have one: "csv_records x = [split_on (CHR '','') x]"
    using assms(2,3) by (rule csv_records_one_line)
  then have ok: "failure (parse csv x) = None"
    by (simp add: parse_csv csv_parse_ok)
  show ?thesis
    using growth_csv [OF assms(1,2) ok] one by (simp add: Let_def)
qed

lemma lastSize_callback:
  "lastSize (after (callback lib s ev v)) =
     (if ev = Change \<and> (\<exists>sz. stat_size v = Some sz \<and> lastSize s < sz)
         \<and> thrown (callback lib s ev v) = None
      then the (stat_size v) else lastSize s)"
  by (auto simp: callback_def on_growth_def unchanged_def Let_def split: option.splits)

lemma lastSize_callback_mono: "lastSize s \<le> lastSize (after (callback lib s ev v))"
  by (auto simp: lastSize_callback)

lemma lastSize_step:
  "lastSize (after (watch_callback lib s ev file)) =
     (if ev = Change \<and> (\<exists>bytes. file = Some bytes \<and> lastSize s < length bytes)
         \<and> thrown (watch_callback lib s ev file) = None
      then length (the file) else lastSize s)"
  by (auto simp: watch_callback_def stable_def lastSize_callback split: option.splits)

lemma lastSize_mono: "lastSize s \<le> lastSize (after (watch_callback lib s ev file))"
  by (simp add: watch_callback_def lastSize_callback_mono)

lemma headers_callback:
  "headers (after (callback lib s ev v)) \<noteq> headers s \<Longrightarrow> lastSize s = 0 \<and> headers s = []"
  by (auto simp: callback_def on_growth_def unchanged_def Let_def
      split: option.splits if_splits)



lemma headers_step:
  "headers (after (watch_callback lib s ev file)) \<noteq> headers s
     \<Longrightarrow> lastSize s = 0 \<and> headers s = []"
  unfolding watch_callback_def by (rule headers_callback)


lemma emitted_callback_headerless:
  "headers s = [] \<Longrightarrow> 0 < lastSize s \<Longrightarrow> stat_size v = Some sz \<Longrightarrow> lastSize s < sz \<Longrightarrow>
     emitted (callback lib s Change v) =
       map (\<lambda>r. LogInfo (join '', '' r))
         (records (parse lib (createReadStream (range_bytes v) (lastSize s) sz)))"
  by (auto simp: callback_def on_growth_def show_record_def Let_def split: option.splits)

lemma emitted_step_headerless:
  "headers s = [] \<Longrightarrow> 0 < lastSize s \<Longrightarrow> lastSize s < length bytes \<Longrightarrow>
     emitted (watch_callback lib s Change (Some bytes)) =
       map (\<lambda>r. LogInfo (join '', '' r))
         (records (parse lib (createReadStream bytes (lastSize s) (length bytes))))"
  using emitted_callback_headerless [of s "stable (Some bytes)" "length bytes" lib]
  by (simp add: watch_callback_def stable_def)



lemma reads_from_mono: "m \<le> n \<Longrightarrow> reads_from n op \<Longrightarrow> reads_from m op"
  by (auto simp: reads_from_def split: read_op.splits)

lemma reads_from_step:
  "list_all (reads_from (lastSize s)) (opened (watch_callback lib s ev file))"
  by (auto simp: watch_callback_def callback_def stable_def on_growth_def unchanged_def Let_def
      reads_from_def split: option.splits)

section \<open>Runs one after the other\<close>

lemma run_headers_fixed:
  "headers s \<noteq> [] \<Longrightarrow> \<forall>out \<in> set (run lib s es). headers (after out) = headers s"
proof (induction es arbitrary: s)
  case Nil
  show ?case by simp
next
  case (Cons e es)
  have keep: "headers (after (watch_callback lib s (fst e) (snd e))) = headers s"
    using headers_step [of lib s "fst e" "snd e"] Cons.prems by blast
  show ?case
    using Cons.IH [of "after (watch_callback lib s (fst e) (snd e))"] keep Cons.prems
    by (simp add: Let_def)
qed


lemma run_lastSize_lower:
  "\<forall>out \<in> set (run lib s es). lastSize s \<le> lastSize (after out)
      \<and> list_all (reads_from (lastSize s)) (opened out)"
proof (induction es arbitrary: s)
  case Nil
  show ?case by simp
next
  case (Cons e es)
  let ?o = "watch_callback lib s (fst e) (snd e)"
  have m: "lastSize s \<le> lastSize (after ?o)"
    by (rule lastSize_mono)
  have r: "list_all (reads_from (lastSize s)) (opened ?o)"
    by (rule reads_from_step)
  have rest: "lastSize s \<le> lastSize (after out)
      \<and> list_all (reads_from (lastSize s)) (opened out)"
    if "out \<in> set (run lib (after ?o) es)" for out
  proof -
    from Cons.IH [of "after ?o"] that
    have 1: "lastSize (after ?o) \<le> lastSize (after out)"
      and 2: "list_all (reads_from (lastSize (after ?o))) (opened out)"
      by auto
    from 1 m have "lastSize s \<le> lastSize (after out)" by simp
    moreover from 2 m have "list_all (reads_from (lastSize s)) (opened out)"
      by (auto simp: list_all_iff intro: reads_from_mono)
    ultimately show ?thesis by simp
  qed
  show ?case
    using m r rest by (auto simp: Let_def)
qed

lemma run_lastSize_sorted:
  "sorted (lastSize s # map (\<lambda>out. lastSize (after out)) (run lib s es))"
proof (induction es arbitrary: s)
  case Nil
  show ?case by simp
next
  case (Cons e es)
  let ?o = "watch_callback lib s (fst e) (snd e)"
  have m: "lastSize s \<le> lastSize (after ?o)"
    by (rule lastSize_mono)
  have "\<forall>out \<in> set (run lib (after ?o) es). lastSize s \<le> lastSize (after out)"
    using run_lastSize_lower [of lib "after ?o" es] m by auto
  then show ?case
    using Cons.IH [of "after ?o"] m by (auto simp: Let_def)
qed

section \<open>Sessions that end with the first throw\<close>

lemma session_lastSize_lower:
  "\<forall>out \<in> set (session lib s es). lastSize s \<le> lastSize (after out)"
proof (induction es arbitrary: s)
  case Nil
  show ?case by simp
next
  case (Cons e es)
  let ?o = "callback lib s (fst e) (snd e)"
  have m: "lastSize s \<le> lastSize (after ?o)"
    by (rule lastSize_callback_mono)
  have "lastSize s \<le> lastSize (after out)" if "out \<in> set (session lib (after ?o) es)" for out
    using Cons.IH [of "after ?o"] that m by fastforce
  then show ?case
    using m by (auto simp: Let_def split: option.splits)
qed

lemma session_lastSize_sorted:
  "sorted (lastSize s # map (\<lambda>out. lastSize (after out)) (session lib s es))"
proof (induction es arbitrary: s)
  case Nil
  show ?case by simp
next
  case (Cons e es)
  let ?o = "callback lib s (fst e) (snd e)"
  have m: "lastSize s \<le> lastSize (after ?o)"
    by (rule lastSize_callback_mono)
  have "\<forall>out \<in> set (session lib (after ?o) es). lastSize s \<le> lastSize (after out)"
    using session_lastSize_lower [of lib "after ?o" es] m by fastforce
  then show ?case
    using Cons.IH [of "after ?o"] m by (auto simp: Let_def split: option.splits)
qed




section \<open>Runs that overlap\<close>

lemma without_last: "without (length xs) (xs @ [x]) = xs"
  by (simp add: without_def)





text \<open>
  On files that do not change during a run, a session is the beginning of the \<open>run\<close> over
  the same notifications, up to the first throw.
\<close>

lemma session_begins_run:
  "\<exists>rest. run lib s es = session lib s (map (\<lambda>e. (fst e, stable (snd e))) es) @ rest"
proof (induction es arbitrary: s)
  case Nil
  show ?case by simp
next
  case (Cons e es)
  let ?o = "watch_callback lib s (fst e) (snd e)"
  obtain rest where "run lib (after ?o) es
      = session lib (after ?o) (map (\<lambda>e. (fst e, stable (snd e))) es) @ rest"
    using Cons.IH [of "after ?o"] by blast
  then show ?case
    by (cases "thrown ?o") (auto simp: Let_def watch_callback_def)
qed

text \<open>
  A run that is resumed before anything else happens is the function \<open>callback\<close>: the
  process ends with the state, the output and the error of that outcome.
\<close>

lemma exec_three: "exec lib p [a, b, c] = step lib (step lib (step lib p a) b) c"
  by (simp add: exec_def)

lemma step_crashed: "crashed p \<noteq> None \<Longrightarrow> step lib p a = p"
  by (simp add: step_def)

lemma step_Resume_beyond: "length (suspended p) \<le> i \<Longrightarrow> step lib p (Resume i) = p"
  by (simp add: step_def)

lemma unoverlapped_run:
  assumes "crashed p = None"
  shows "exec lib p [Notify ev v, Resume (length (suspended p)), Resume (length (suspended p))]
    = p\<lparr>vars := after (callback lib (vars p) ev v),
        console := console p @ emitted (callback lib (vars p) ev v),
        crashed := thrown (callback lib (vars p) ev v)\<rparr>"
proof -
  let ?k = "length (suspended p)"
  let ?s = "vars p"
  consider (idle) "ev \<noteq> Change \<or> (\<exists>sz. stat_size v = Some sz \<and> sz \<le> lastSize ?s)"
    | (missing) "ev = Change" "stat_size v = None"
    | (growth) sz where "ev = Change" "stat_size v = Some sz" "lastSize ?s < sz"
    using not_le by (cases "stat_size v") blast+
  then show ?thesis
  proof cases
    case idle
    then have n: "step lib p (Notify ev v) = p"
      using assms by (auto simp: step_def)
    have c: "callback lib ?s ev v = unchanged ?s"
      using idle by (auto simp: callback_def)
    show ?thesis
      using assms by (simp add: exec_three n step_Resume_beyond c unchanged_def)
  next
    case missing
    have n: "step lib p (Notify ev v) = p\<lparr>crashed := Some ENOENT\<rparr>"
      using assms missing by (simp add: step_def)
    have c: "callback lib ?s ev v
        = \<lparr>after = ?s, emitted = [], opened = [], thrown = Some ENOENT\<rparr>"
      using missing by (simp add: callback_def)
    show ?thesis
      by (simp add: exec_three n step_crashed c)
  next
    case growth
    let ?r = "begin_run lib ?s sz (range_bytes v) (header_bytes v)"
    let ?p1 = "p\<lparr>suspended := suspended p @ [?r]\<rparr>"
    have n: "step lib p (Notify ev v) = ?p1"
      using assms growth by (simp add: step_def)
    have c: "callback lib ?s ev v = on_growth lib ?s sz (range_bytes v) (header_bytes v)"
      using growth by (simp add: callback_def)
    have r1: "step lib ?p1 (Resume ?k) = resume ?p1 ?k"
      using assms by (simp add: step_def)
    show ?thesis
    proof (cases "length (headers ?s) = 0 \<and> lastSize ?s = 0")
      case False
      then have st: "run_stage ?r = AtRows"
        by (auto simp: begin_run_def)
      show ?thesis
      proof (cases "failure (parse lib (createReadStream (range_bytes v) (lastSize ?s) sz))")
        case None
        then have res: "resume ?p1 ?k
            = p\<lparr>vars := ?s\<lparr>lastSize := sz\<rparr>,
                console := console p @ map (show_record (headers ?s))
                  (records (parse lib (createReadStream (range_bytes v) (lastSize ?s) sz)))\<rparr>"
          using st by (simp add: resume_def begin_run_def without_last Let_def)
        have og: "on_growth lib ?s sz (range_bytes v) (header_bytes v)
            = \<lparr>after = \<lparr>lastSize = sz, headers = headers ?s\<rparr>,
               emitted = map (show_record (headers ?s))
                  (records (parse lib (createReadStream (range_bytes v) (lastSize ?s) sz))),
               opened = [ReadRange (lastSize ?s) sz], thrown = None\<rparr>"
          using False None by (auto simp: on_growth_def Let_def)
        have eq: "?s\<lparr>lastSize := sz\<rparr> = \<lparr>lastSize = sz, headers = headers ?s\<rparr>"
          by simp
        show ?thesis
          using assms by (simp add: exec_three n r1 res step_Resume_beyond c og eq)
      next
        case (Some e)
        then have res: "resume ?p1 ?k
            = p\<lparr>console := console p @ map (show_record (headers ?s))
                  (records (parse lib (createReadStream (range_bytes v) (lastSize ?s) sz))),
                crashed := Some e\<rparr>"
          using st by (simp add: resume_def begin_run_def without_last Let_def)
        have og: "on_growth lib ?s sz (range_bytes v) (header_bytes v)
            = \<lparr>after = ?s,
               emitted = map (show_record (headers ?s))
                  (records (parse lib (createReadStream (range_bytes v) (lastSize ?s) sz))),
               opened = [ReadRange (lastSize ?s) sz], thrown = Some e\<rparr>"
          using False Some by (auto simp: on_growth_def Let_def)
        show ?thesis
          by (simp add: exec_three n r1 res step_crashed c og)
      qed
    next
      case True
      then have st: "run_stage ?r = AtHeader"
        by (simp add: begin_run_def)
      let ?hs = "headers ?s @ concat (records (parse_to_line_1 lib (header_bytes v)))"
      show ?thesis
      proof (cases "failure (parse_to_line_1 lib (header_bytes v))")
        case (Some e)
        then have res: "resume ?p1 ?k = p\<lparr>vars := ?s\<lparr>headers := ?hs\<rparr>, crashed := Some e\<rparr>"
          using st by (simp add: resume_def begin_run_def without_last Let_def)
        have og: "on_growth lib ?s sz (range_bytes v) (header_bytes v)
            = \<lparr>after = ?s\<lparr>headers := ?hs\<rparr>, emitted = [],
               opened = [ReadRange (lastSize ?s) sz, ReadFile], thrown = Some e\<rparr>"
          using True Some by (simp add: on_growth_def Let_def)
        show ?thesis
          by (simp add: exec_three n r1 res step_crashed c og)
      next
        case None
        let ?p2 = "p\<lparr>vars := ?s\<lparr>headers := ?hs\<rparr>,
                     suspended := suspended p @ [?r\<lparr>run_stage := AtRows\<rparr>]\<rparr>"
        have res: "resume ?p1 ?k = ?p2"
          using st None by (simp add: resume_def begin_run_def Let_def)
        have r2: "step lib ?p2 (Resume ?k) = resume ?p2 ?k"
          using assms by (simp add: step_def)
        let ?rows = "map (show_record ?hs)
            (records (parse lib (createReadStream (range_bytes v) (lastSize ?s) sz)))"
        show ?thesis
        proof (cases "failure (parse lib (createReadStream (range_bytes v) (lastSize ?s) sz))")
          case (Some e)
          then have fin: "resume ?p2 ?k
              = p\<lparr>vars := ?s\<lparr>headers := ?hs\<rparr>, console := console p @ ?rows,
                  crashed := Some e\<rparr>"
            by (simp add: resume_def begin_run_def without_last Let_def)
          have og: "on_growth lib ?s sz (range_bytes v) (header_bytes v)
              = \<lparr>after = ?s\<lparr>headers := ?hs\<rparr>, emitted = ?rows,
                 opened = [ReadRange (lastSize ?s) sz, ReadFile], thrown = Some e\<rparr>"
            using True None Some by (simp add: on_growth_def Let_def)
          show ?thesis
            by (simp add: exec_three n r1 res r2 fin c og)
        next
          case rows_ok: None
          then have fin: "resume ?p2 ?k
              = p\<lparr>vars := \<lparr>lastSize = sz, headers = ?hs\<rparr>, console := console p @ ?rows\<rparr>"
            by (simp add: resume_def begin_run_def without_last Let_def)
          have og: "on_growth lib ?s sz (range_bytes v) (header_bytes v)
              = \<lparr>after = \<lparr>lastSize = sz, headers = ?hs\<rparr>, emitted = ?rows,
                 opened = [ReadRange (lastSize ?s) sz, ReadFile], thrown = None\<rparr>"
            using True None rows_ok by (simp add: on_growth_def Let_def)
          show ?thesis
            using assms by (simp add: exec_three n r1 res r2 fin c og)
        qed
      qed
    qed
  qed
qed

section \<open>The claims about the watch callback\<close>

text \<open>
  C7 (idempotent re-notification). A change notification for which the size of the file
  equals \<open>lastSize\<close> opens no read stream, emits no record, throws nothing and leaves
  \<open>lastSize\<close> and \<open>headers\<close> as they are.
\<close>

theorem renotification_is_noop:
  assumes "length bytes = lastSize s"
  shows "after (watch_callback lib s Change (Some bytes)) = s
       \<and> emitted (watch_callback lib s Change (Some bytes)) = []
       \<and> opened (watch_callback lib s Change (Some bytes)) = []
       \<and> thrown (watch_callback lib s Change (Some bytes)) = None"
  using assms by (simp add: watch_callback_def callback_def stable_def unchanged_def)

text \<open>
  The instance: the session has read the 14 bytes of the file, and a second notification
  arrives for the same 14 bytes.
\<close>

theorem renotification_is_noop_witness:
  "length ''id,name\<newline>1,Ann\<newline>'' = lastSize \<lparr>lastSize = 14, headers = [''id'', ''name'']\<rparr>
   \<and> after (watch_callback csv \<lparr>lastSize = 14, headers = [''id'', ''name'']\<rparr> Change
         (Some ''id,name\<newline>1,Ann\<newline>'')) = \<lparr>lastSize = 14, headers = [''id'', ''name'']\<rparr>
   \<and> emitted (watch_callback csv \<lparr>lastSize = 14, headers = [''id'', ''name'']\<rparr> Change
         (Some ''id,name\<newline>1,Ann\<newline>'')) = []
   \<and> opened (watch_callback csv \<lparr>lastSize = 14, headers = [''id'', ''name'']\<rparr> Change
         (Some ''id,name\<newline>1,Ann\<newline>'')) = []"
proof -
  have h: "length ''id,name\<newline>1,Ann\<newline>''
      = lastSize \<lparr>lastSize = 14, headers = [''id'', ''name'']\<rparr>"
    by simp
  show ?thesis
    using h renotification_is_noop [OF h, of csv] by blast
qed

text \<open>
  Two notifications in a row for the same file: when the first run does not throw, the
  second does nothing, whatever the first did.
\<close>

lemma duplicate_notification:
  assumes "thrown (watch_callback lib s Change (Some bytes)) = None"
  shows "watch_callback lib (after (watch_callback lib s Change (Some bytes))) Change (Some bytes)
       = unchanged (after (watch_callback lib s Change (Some bytes)))"
proof -
  have "length bytes \<le> lastSize (after (watch_callback lib s Change (Some bytes)))"
    using assms by (auto simp: lastSize_step)
  then show ?thesis by (rule watch_callback_no_growth)
qed




text \<open>
  C4 (offset bookkeeping), as the code has it. A run of the callback assigns \<open>lastSize\<close> at
  most once, at line 141, and only the size it stat'ed, which is above the value of
  \<open>lastSize\<close> it read at line 113: a run that sees growth and does not throw leaves
  \<open>lastSize\<close> at the stat'ed size, and every other run (another event type, no growth, no
  file at the path, an error thrown) does not assign it. So along a session in which
  every run has finished before the next starts, \<open>lastSize\<close> never decreases.
\<close>

theorem lastSize_bookkeeping:
  "lastSize s \<le> lastSize (after (callback lib s ev v))
   \<and> (ev = Change \<and> stat_size v = Some sz \<and> lastSize s < sz
        \<and> thrown (callback lib s ev v) = None
      \<longrightarrow> lastSize (after (callback lib s ev v)) = sz)
   \<and> (ev \<noteq> Change \<or> stat_size v = None \<or> (\<exists>n. stat_size v = Some n \<and> n \<le> lastSize s)
        \<or> thrown (callback lib s ev v) \<noteq> None
      \<longrightarrow> lastSize (after (callback lib s ev v)) = lastSize s)
   \<and> sorted (lastSize s # map (\<lambda>out. lastSize (after out)) (session lib s es))"
proof (intro conjI impI)
  show "lastSize s \<le> lastSize (after (callback lib s ev v))"
    by (rule lastSize_callback_mono)
  show "lastSize (after (callback lib s ev v)) = sz"
    if "ev = Change \<and> stat_size v = Some sz \<and> lastSize s < sz
        \<and> thrown (callback lib s ev v) = None"
    using that by (auto simp: lastSize_callback)
  show "lastSize (after (callback lib s ev v)) = lastSize s"
    if "ev \<noteq> Change \<or> stat_size v = None \<or> (\<exists>n. stat_size v = Some n \<and> n \<le> lastSize s)
        \<or> thrown (callback lib s ev v) \<noteq> None"
    using that by (auto simp: lastSize_callback)
  show "sorted (lastSize s # map (\<lambda>out. lastSize (after out)) (session lib s es))"
    by (rule session_lastSize_sorted)
qed

theorem lastSize_bookkeeping_witness:
  "thrown (callback csv \<lparr>lastSize = 14, headers = [''id'', ''name'']\<rparr> Change
      (stable (Some ''id,name\<newline>1,Ann\<newline>2,Bob\<newline>''))) = None
   \<and> lastSize (after (callback csv \<lparr>lastSize = 14, headers = [''id'', ''name'']\<rparr> Change
      (stable (Some ''id,name\<newline>1,Ann\<newline>2,Bob\<newline>'')))) = 20
   \<and> lastSize (after (callback csv \<lparr>lastSize = 14, headers = [''id'', ''name'']\<rparr> Rename
      (stable (Some ''id,name\<newline>1,Ann\<newline>2,Bob\<newline>'')))) = 14"
proof -
  let ?s = "\<lparr>lastSize = 14, headers = [''id'', ''name'']\<rparr>"
  let ?v = "stable (Some ''id,name\<newline>1,Ann\<newline>2,Bob\<newline>'')"
  have t: "thrown (callback csv ?s Change ?v) = None"
    by (simp add: callback_defs csv_defs)
  have z: "stat_size ?v = Some 20"
    by (simp add: stable_def)
  have g: "lastSize ?s < 20"
    by simp
  have a: "lastSize (after (callback csv ?s Change ?v)) = 20"
    using lastSize_bookkeeping [of ?s csv Change ?v 20] t z g by blast
  have "lastSize (after (callback csv ?s Rename ?v)) = lastSize ?s"
    using lastSize_bookkeeping [of ?s csv Rename ?v] by blast
  then have b: "lastSize (after (callback csv ?s Rename ?v)) = 14"
    by simp
  show ?thesis
    using t a b by blast
qed

text \<open>
  Against the claim as stated: the file grows by the four bytes \<open>2,Bo\<close> of a line that has
  no terminator yet. The code moves \<open>lastSize\<close> to 18, the size of the file; the size less
  the unterminated fragment, which the claim gives as the offset, is 14. When the file
  grows by two terminated lines of which the parser rejects the second, \<open>lastSize\<close> stays
  at 14, while the file has 24 bytes and no fragment at its end. And \<open>lastSize\<close> can
  decrease: a run stats the file at 20 bytes and is suspended, the file is rewritten
  with 16 bytes, a second run stats it, passes the test of line 113 against 14 and is
  suspended; the first run is resumed and assigns 20, then the second assigns 16.
\<close>

theorem offset_bookkeeping_counterexample:
  "lastSize (after (watch_callback csv \<lparr>lastSize = 14, headers = [''id'', ''name'']\<rparr> Change
      (Some ''id,name\<newline>1,Ann\<newline>2,Bo''))) = 18
   \<and> spec_offset ''id,name\<newline>1,Ann\<newline>2,Bo'' = 14
   \<and> lastSize (after (watch_callback csv \<lparr>lastSize = 14, headers = [''id'', ''name'']\<rparr> Change
      (Some ''id,name\<newline>1,Ann\<newline>2,Bob\<newline>bad\<newline>''))) = 14
   \<and> spec_offset ''id,name\<newline>1,Ann\<newline>2,Bob\<newline>bad\<newline>'' = 24
   \<and> lastSize (vars (exec csv (boot \<lparr>lastSize = 14, headers = [''id'', ''name'']\<rparr>)
      [Notify Change (stable (Some ''id,name\<newline>1,Ann\<newline>2,Bob\<newline>'')),
       Notify Change (stable (Some ''id,name\<newline>1,Ann\<newline>x\<newline>'')),
       Resume 0])) = 20
   \<and> lastSize (vars (exec csv (boot \<lparr>lastSize = 14, headers = [''id'', ''name'']\<rparr>)
      [Notify Change (stable (Some ''id,name\<newline>1,Ann\<newline>2,Bob\<newline>'')),
       Notify Change (stable (Some ''id,name\<newline>1,Ann\<newline>x\<newline>'')),
       Resume 0, Resume 0])) = 16"
  by (simp add: callback_defs csv_defs exec_defs spec_offset_def spec_fragment_def)

text \<open>
  C5 (removal), as the code has it. The callback has no branch for a removed file. A
  \<open>rename\<close> notification does nothing: nothing is emitted, the state is kept, and the
  session goes on with the notifications that follow. A \<open>change\<close> notification that
  finds no file at the path ends in the \<open>ENOENT\<close> of \<open>statSync\<close>, thrown and not caught:
  nothing is emitted, and the session ends there, by the error and not by a notice.
\<close>

theorem removal_not_handled:
  "callback lib s Rename v = unchanged s
   \<and> callback lib s Change (v\<lparr>stat_size := None\<rparr>)
       = \<lparr>after = s, emitted = [], opened = [], thrown = Some ENOENT\<rparr>
   \<and> session lib s ((Rename, v) # es) = unchanged s # session lib s es
   \<and> session lib s ((Change, v\<lparr>stat_size := None\<rparr>) # es)
       = [\<lparr>after = s, emitted = [], opened = [], thrown = Some ENOENT\<rparr>]"
  by (simp add: callback_def unchanged_def Let_def)

text \<open>
  Against the claim as stated. The file is removed and a file of the same name appears
  with one more line. When the removal arrives as a \<open>rename\<close> notification, no run emits
  a removal notice and the run for the new file emits its new line as a row. When it
  arrives as a \<open>change\<close> notification with no file at the path, the session is the one
  run that throws \<open>ENOENT\<close>, and that run emits nothing.
\<close>

theorem removal_counterexample:
  "session csv \<lparr>lastSize = 14, headers = [''id'', ''name'']\<rparr>
      [(Rename, stable None), (Change, stable (Some ''id,name\<newline>1,Ann\<newline>2,Bob\<newline>''))]
    = [\<lparr>after = \<lparr>lastSize = 14, headers = [''id'', ''name'']\<rparr>, emitted = [], opened = [],
         thrown = None\<rparr>,
       \<lparr>after = \<lparr>lastSize = 20, headers = [''id'', ''name'']\<rparr>,
         emitted = [NewRow [''id'', ''name''] [''2'', ''Bob'']],
         opened = [ReadRange 14 20], thrown = None\<rparr>]
   \<and> session csv \<lparr>lastSize = 14, headers = [''id'', ''name'']\<rparr>
      [(Change, stable None), (Change, stable (Some ''id,name\<newline>1,Ann\<newline>2,Bob\<newline>''))]
    = [\<lparr>after = \<lparr>lastSize = 14, headers = [''id'', ''name'']\<rparr>, emitted = [], opened = [],
         thrown = Some ENOENT\<rparr>]"
  by (simp add: callback_defs csv_defs)

text \<open>
  C6 (malformed record), as the code has it. When the parser of the newly read bytes ends
  with an error, the run of the callback ends with an error thrown and not caught,
  \<open>lastSize\<close> is not advanced, and the session ends with that run: the notifications
  that follow are not served.
\<close>

theorem parse_failure_propagates:
  assumes "stat_size v = Some sz"
    and "lastSize s < sz"
    and "failure (parse lib (createReadStream (range_bytes v) (lastSize s) sz)) = Some e"
  shows "thrown (callback lib s Change v) \<noteq> None
       \<and> lastSize (after (callback lib s Change v)) = lastSize s
       \<and> session lib s ((Change, v) # es) = [callback lib s Change v]"
proof -
  have t: "thrown (callback lib s Change v) \<noteq> None"
    using assms by (auto simp: callback_def on_growth_def Let_def)
  have l: "lastSize (after (callback lib s Change v)) = lastSize s"
    using t by (auto simp: lastSize_callback)
  have "session lib s ((Change, v) # es) = [callback lib s Change v]"
    using t by (auto simp: Let_def split: option.splits)
  with t l show ?thesis by blast
qed

theorem parse_failure_propagates_witness:
  "stat_size (stable (Some ''id,name\<newline>1,Ann\<newline>2,Bob\<newline>bad\<newline>'')) = Some 24
   \<and> failure (parse csv (createReadStream ''id,name\<newline>1,Ann\<newline>2,Bob\<newline>bad\<newline>'' 14 24))
      = Some (InvalidRecordLength 2 1)
   \<and> thrown (callback csv \<lparr>lastSize = 14, headers = [''id'', ''name'']\<rparr> Change
        (stable (Some ''id,name\<newline>1,Ann\<newline>2,Bob\<newline>bad\<newline>''))) \<noteq> None
   \<and> lastSize (after (callback csv \<lparr>lastSize = 14, headers = [''id'', ''name'']\<rparr> Change
        (stable (Some ''id,name\<newline>1,Ann\<newline>2,Bob\<newline>bad\<newline>'')))) = 14"
proof -
  let ?s = "\<lparr>lastSize = 14, headers = [''id'', ''name'']\<rparr>"
  let ?f = "''id,name\<newline>1,Ann\<newline>2,Bob\<newline>bad\<newline>''"
  have z: "stat_size (stable (Some ?f)) = Some 24"
    by (simp add: stable_def)
  have g: "lastSize ?s < 24"
    by simp
  have e: "failure (parse csv (createReadStream ?f 14 24)) = Some (InvalidRecordLength 2 1)"
    by (simp add: csv_defs createReadStream_def)
  have e': "failure (parse csv (createReadStream (range_bytes (stable (Some ?f))) (lastSize ?s) 24))
      = Some (InvalidRecordLength 2 1)"
    by (simp add: csv_defs createReadStream_def stable_def)
  have "thrown (callback csv ?s Change (stable (Some ?f))) \<noteq> None
       \<and> lastSize (after (callback csv ?s Change (stable (Some ?f)))) = lastSize ?s"
    using parse_failure_propagates [OF z g e'] by blast
  then have "thrown (callback csv ?s Change (stable (Some ?f))) \<noteq> None
       \<and> lastSize (after (callback csv ?s Change (stable (Some ?f)))) = 14"
    by simp
  with z e show ?thesis by blast
qed

text \<open>
  Against the claim as stated: the file grows by a good line and a line with one field
  too few, and later by one more good line. The first run ends with the parser's error
  thrown and \<open>lastSize\<close> still at 14; the session ends there, the second notification is
  not served, and the row \<open>3,Cy\<close> behind the bad line is never emitted.
\<close>

theorem malformed_record_counterexample:
  "map thrown (session csv \<lparr>lastSize = 14, headers = [''id'', ''name'']\<rparr>
      [(Change, stable (Some ''id,name\<newline>1,Ann\<newline>2,Bob\<newline>bad\<newline>'')),
       (Change, stable (Some ''id,name\<newline>1,Ann\<newline>2,Bob\<newline>bad\<newline>3,Cy\<newline>''))])
     = [Some (InvalidRecordLength 2 1)]
   \<and> map (\<lambda>out. lastSize (after out)) (session csv \<lparr>lastSize = 14, headers = [''id'', ''name'']\<rparr>
      [(Change, stable (Some ''id,name\<newline>1,Ann\<newline>2,Bob\<newline>bad\<newline>'')),
       (Change, stable (Some ''id,name\<newline>1,Ann\<newline>2,Bob\<newline>bad\<newline>3,Cy\<newline>''))])
     = [14]
   \<and> NewRow [''id'', ''name''] [''3'', ''Cy''] \<notin> set (concat (map emitted
      (session csv \<lparr>lastSize = 14, headers = [''id'', ''name'']\<rparr>
        [(Change, stable (Some ''id,name\<newline>1,Ann\<newline>2,Bob\<newline>bad\<newline>'')),
         (Change, stable (Some ''id,name\<newline>1,Ann\<newline>2,Bob\<newline>bad\<newline>3,Cy\<newline>''))])))"
  by (simp add: callback_defs csv_defs)




text \<open>
  C9 (the watch starts at the current end of the file). The watch starts with \<open>lastSize\<close>
  equal to the size the file has then. The first growth of a file that had content hands
  the parser the appended bytes and nothing else, through one read stream that starts at
  the old size. In every run of the session \<open>lastSize\<close> is at least the size at the start
  and every read stream starts at or after it, the stream over the whole file being
  opened only when the file was empty at the start.
\<close>

theorem watch_starts_at_end_of_file:
  "lastSize (handleStream_start f0) = length f0
   \<and> headers (handleStream_start f0) = []
   \<and> (f0 \<noteq> [] \<and> appended \<noteq> [] \<longrightarrow>
        emitted (watch_callback lib (handleStream_start f0) Change (Some (f0 @ appended)))
          = map (\<lambda>r. LogInfo (join '', '' r)) (records (parse lib appended))
        \<and> opened (watch_callback lib (handleStream_start f0) Change (Some (f0 @ appended)))
          = [ReadRange (length f0) (length (f0 @ appended))])
   \<and> (\<forall>out \<in> set (run lib (handleStream_start f0) es).
         length f0 \<le> lastSize (after out) \<and> list_all (reads_from (length f0)) (opened out))"
proof (intro conjI impI)
  show "lastSize (handleStream_start f0) = length f0"
    by (simp add: handleStream_start_def)
  show "headers (handleStream_start f0) = []"
    by (simp add: handleStream_start_def)
  have chunk: "createReadStream (f0 @ appended) (length f0) (length f0 + length appended)
      = appended"
    by (simp add: createReadStream_def)
  show "emitted (watch_callback lib (handleStream_start f0) Change (Some (f0 @ appended)))
          = map (\<lambda>r. LogInfo (join '', '' r)) (records (parse lib appended))"
    if "f0 \<noteq> [] \<and> appended \<noteq> []"
    using that emitted_step_headerless [of "handleStream_start f0" "f0 @ appended" lib]
    by (simp add: handleStream_start_def chunk)
  show "opened (watch_callback lib (handleStream_start f0) Change (Some (f0 @ appended)))
          = [ReadRange (length f0) (length (f0 @ appended))]"
    if "f0 \<noteq> [] \<and> appended \<noteq> []"
    using that
    by (auto simp: watch_callback_def callback_def stable_def on_growth_def handleStream_start_def Let_def
        split: option.splits)
  show "\<forall>out \<in> set (run lib (handleStream_start f0) es).
         length f0 \<le> lastSize (after out) \<and> list_all (reads_from (length f0)) (opened out)"
    using run_lastSize_lower [of lib "handleStream_start f0" es]
    by (simp add: handleStream_start_def)
qed

theorem watch_starts_at_end_of_file_witness:
  "''id,name\<newline>1,Ann\<newline>'' \<noteq> [] \<and> ''2,Bob\<newline>'' \<noteq> []
   \<and> records (parse csv ''2,Bob\<newline>'') = [[''2'', ''Bob'']]
   \<and> emitted (watch_callback csv (handleStream_start ''id,name\<newline>1,Ann\<newline>'') Change
        (Some (''id,name\<newline>1,Ann\<newline>'' @ ''2,Bob\<newline>''))) = [LogInfo ''2, Bob'']
   \<and> opened (watch_callback csv (handleStream_start ''id,name\<newline>1,Ann\<newline>'') Change
        (Some (''id,name\<newline>1,Ann\<newline>'' @ ''2,Bob\<newline>''))) = [ReadRange 14 20]"
proof -
  let ?f0 = "''id,name\<newline>1,Ann\<newline>''"
  let ?a = "''2,Bob\<newline>''"
  have ne: "?f0 \<noteq> [] \<and> ?a \<noteq> []"
    by simp
  have p: "records (parse csv ?a) = [[''2'', ''Bob'']]"
    by (simp add: csv_defs)
  have "emitted (watch_callback csv (handleStream_start ?f0) Change (Some (?f0 @ ?a)))
          = map (\<lambda>r. LogInfo (join '', '' r)) (records (parse csv ?a))
        \<and> opened (watch_callback csv (handleStream_start ?f0) Change (Some (?f0 @ ?a)))
          = [ReadRange (length ?f0) (length (?f0 @ ?a))]"
    using watch_starts_at_end_of_file [of ?f0 ?a csv] ne by blast
  then have "emitted (watch_callback csv (handleStream_start ?f0) Change (Some (?f0 @ ?a)))
          = [LogInfo ''2, Bob'']
        \<and> opened (watch_callback csv (handleStream_start ?f0) Change (Some (?f0 @ ?a)))
          = [ReadRange 14 20]"
    by (simp add: p)
  with ne p show ?thesis by blast
qed

text \<open>
  Two reads of a file that grows by \<open>a\<close> and then by \<open>b\<close>, against one read of the growth
  by \<open>a @ b\<close>, when \<open>a\<close> is empty or ends with a line feed and \<open>a @ b\<close> parses.
\<close>

lemma boundary_split:
  assumes "lastSize s = length pre"
    and "a = [] \<or> last a = CHR 0x0A"
    and "failure (parse csv (a @ b)) = None"
  shows "emitted (watch_callback csv s Change (Some (pre @ a))) @
         emitted (watch_callback csv (after (watch_callback csv s Change (Some (pre @ a))))
                    Change (Some (pre @ a @ b)))
         = emitted (watch_callback csv s Change (Some (pre @ a @ b)))
       \<and> after (watch_callback csv (after (watch_callback csv s Change (Some (pre @ a))))
                    Change (Some (pre @ a @ b)))
         = after (watch_callback csv s Change (Some (pre @ a @ b)))"
proof (cases "a = []")
  case True
  then show ?thesis
    using assms(1) by (simp add: watch_callback_no_growth unchanged_def)
next
  case a: False
  with assms(2) have nl: "last a = CHR 0x0A" by simp
  have okab: "failure (csv_parse 0 (a @ b)) = None"
    using assms(3) by (simp add: parse_csv)
  have oka: "failure (parse csv a) = None" and okb: "failure (parse csv b) = None"
    using csv_parse_boundary [OF assms(2) okab] by (simp_all add: parse_csv)
  have recs: "csv_records (a @ b) = csv_records a @ csv_records b"
    using assms(2) by (rule csv_records_boundary)
  have first: "take 1 (csv_records (a @ b)) = take 1 (csv_records a)"
    using recs csv_records_terminated_not_Nil [OF a nl] by (cases "csv_records a") auto
  define hs where "hs = (if headers s = [] \<and> lastSize s = 0
                         then concat (take 1 (csv_records (pre @ a))) else headers s)"
  have pre: "headers s = [] \<and> lastSize s = 0 \<Longrightarrow> pre = []"
    using assms(1) by simp
  have o1: "watch_callback csv s Change (Some (pre @ a)) =
      \<lparr>after = \<lparr>lastSize = length (pre @ a), headers = hs\<rparr>,
       emitted = map (show_record hs) (csv_records a),
       opened = ReadRange (length pre) (length (pre @ a)) #
                (if headers s = [] \<and> lastSize s = 0 then [ReadFile] else []),
       thrown = None\<rparr>"
    using growth_csv [OF assms(1) a oka] by (simp add: hs_def Let_def)
  have hs': "(if headers s = [] \<and> lastSize s = 0
              then concat (take 1 (csv_records (pre @ a @ b))) else headers s) = hs"
    using first pre by (auto simp: hs_def)
  have o12: "watch_callback csv s Change (Some (pre @ a @ b)) =
      \<lparr>after = \<lparr>lastSize = length (pre @ a @ b), headers = hs\<rparr>,
       emitted = map (show_record hs) (csv_records (a @ b)),
       opened = ReadRange (length pre) (length (pre @ a @ b)) #
                (if headers s = [] \<and> lastSize s = 0 then [ReadFile] else []),
       thrown = None\<rparr>"
    using growth_csv [OF assms(1) _ assms(3)] a hs' by (simp add: Let_def)
  show ?thesis
  proof (cases "b = []")
    case True
    then show ?thesis
      using o1 by (simp add: watch_callback_no_growth unchanged_def)
  next
    case b: False
    have s1: "lastSize \<lparr>lastSize = length (pre @ a), headers = hs\<rparr> = length (pre @ a)"
      by simp
    have keep: "\<not> (headers \<lparr>lastSize = length (pre @ a), headers = hs\<rparr> = []
                   \<and> lastSize \<lparr>lastSize = length (pre @ a), headers = hs\<rparr> = 0)"
      using a by simp
    have o2: "watch_callback csv \<lparr>lastSize = length (pre @ a), headers = hs\<rparr> Change
                (Some ((pre @ a) @ b)) =
      \<lparr>after = \<lparr>lastSize = length ((pre @ a) @ b), headers = hs\<rparr>,
       emitted = map (show_record hs) (csv_records b),
       opened = [ReadRange (length (pre @ a)) (length ((pre @ a) @ b))],
       thrown = None\<rparr>"
      using growth_csv [OF s1 b okb] keep by (simp add: Let_def)
    show ?thesis
      using o1 o2 o12 recs by simp
  qed
qed

text \<open>
  C1 (reassembly), as the code has it. The callback keeps no fragment between reads: every
  read is parsed on its own. The statement is for a file that does not change while a run
  reads it (\<open>watch_callback\<close>) and for a second run that starts when the first has
  finished (it starts from \<open>after\<close> of the first). Then, for plain bytes split so that the
  first part is empty or ends with a line feed, and whose concatenation parses without
  error, the two reads one after the other emit the records that one read of the
  concatenation emits, and end in the same state. A read of plain bytes that hold no
  line feed emits them at once as one record and moves \<open>lastSize\<close> past them.
\<close>

theorem boundary_split_reassembly:
  assumes "lastSize s = length pre"
    and "a = [] \<or> last a = CHR 0x0A"
    and "plain (a @ b)"
    and "failure (parse csv (a @ b)) = None"
  shows "emitted (watch_callback csv s Change (Some (pre @ a))) @
         emitted (watch_callback csv (after (watch_callback csv s Change (Some (pre @ a))))
                    Change (Some (pre @ a @ b)))
         = emitted (watch_callback csv s Change (Some (pre @ a @ b)))
       \<and> after (watch_callback csv (after (watch_callback csv s Change (Some (pre @ a))))
                    Change (Some (pre @ a @ b)))
         = after (watch_callback csv s Change (Some (pre @ a @ b)))
       \<and> (x \<noteq> [] \<and> plain x \<and> CHR 0x0A \<notin> set x \<longrightarrow>
            emitted (watch_callback csv s Change (Some (pre @ x))) =
              [show_record (headers (after (watch_callback csv s Change (Some (pre @ x)))))
                 (split_on (CHR '','') x)]
            \<and> lastSize (after (watch_callback csv s Change (Some (pre @ x)))) = length (pre @ x))"
  using boundary_split [OF assms(1,2,4)] unterminated_line_emitted [OF assms(1), of x]
  by blast

text \<open>
  The instance: after the 14 bytes of header and first row, the file grows by the line
  \<open>2,Bob\<close> and then by the line \<open>3,Cy\<close>.
\<close>

theorem boundary_split_reassembly_witness:
  "lastSize \<lparr>lastSize = 14, headers = [''id'', ''name'']\<rparr> = length ''id,name\<newline>1,Ann\<newline>''
   \<and> last ''2,Bob\<newline>'' = CHR 0x0A
   \<and> plain (''2,Bob\<newline>'' @ ''3,Cy\<newline>'')
   \<and> failure (parse csv (''2,Bob\<newline>'' @ ''3,Cy\<newline>'')) = None
   \<and> emitted (watch_callback csv \<lparr>lastSize = 14, headers = [''id'', ''name'']\<rparr> Change
        (Some (''id,name\<newline>1,Ann\<newline>'' @ ''2,Bob\<newline>''))) @
     emitted (watch_callback csv
        (after (watch_callback csv \<lparr>lastSize = 14, headers = [''id'', ''name'']\<rparr> Change
           (Some (''id,name\<newline>1,Ann\<newline>'' @ ''2,Bob\<newline>''))))
        Change (Some (''id,name\<newline>1,Ann\<newline>'' @ ''2,Bob\<newline>'' @ ''3,Cy\<newline>'')))
     = [NewRow [''id'', ''name''] [''2'', ''Bob''], NewRow [''id'', ''name''] [''3'', ''Cy'']]"
proof -
  let ?s = "\<lparr>lastSize = 14, headers = [''id'', ''name'']\<rparr>"
  let ?pre = "''id,name\<newline>1,Ann\<newline>''"
  let ?a = "''2,Bob\<newline>''"
  let ?b = "''3,Cy\<newline>''"
  have h1: "lastSize ?s = length ?pre"
    by simp
  have h2: "last ?a = CHR 0x0A"
    by simp
  have h3: "plain (?a @ ?b)"
    by (simp add: plain_def)
  have h4: "failure (parse csv (?a @ ?b)) = None"
    by (simp add: csv_defs)
  have one: "emitted (watch_callback csv ?s Change (Some (?pre @ ?a @ ?b)))
      = [NewRow [''id'', ''name''] [''2'', ''Bob''], NewRow [''id'', ''name''] [''3'', ''Cy'']]"
    by (simp add: callback_defs csv_defs)
  have "emitted (watch_callback csv ?s Change (Some (?pre @ ?a))) @
        emitted (watch_callback csv (after (watch_callback csv ?s Change (Some (?pre @ ?a))))
          Change (Some (?pre @ ?a @ ?b)))
      = emitted (watch_callback csv ?s Change (Some (?pre @ ?a @ ?b)))"
    using boundary_split_reassembly [OF h1 disjI2 [OF h2] h3 h4] by blast
  then have two: "emitted (watch_callback csv ?s Change (Some (?pre @ ?a))) @
        emitted (watch_callback csv (after (watch_callback csv ?s Change (Some (?pre @ ?a))))
          Change (Some (?pre @ ?a @ ?b)))
      = [NewRow [''id'', ''name''] [''2'', ''Bob''], NewRow [''id'', ''name''] [''3'', ''Cy'']]"
    using one by (simp only:)
  show ?thesis
    using h1 h2 h3 h4 two by blast
qed

text \<open>
  Against the claim as stated. The file grows by \<open>2,Bo\<close>, with no line feed: the run emits
  one record, the row \<open>2\<close>, \<open>Bo\<close>, where the claim has none. Split as \<open>2,Bo\<close> and \<open>b\<close> with
  a line feed, the two reads emit the rows \<open>2\<close>, \<open>Bo\<close> and \<open>b\<close>; one read of both emits the
  row \<open>2\<close>, \<open>Bob\<close>.
\<close>

theorem reassembly_counterexample:
  "emitted (watch_callback csv \<lparr>lastSize = 14, headers = [''id'', ''name'']\<rparr> Change
      (Some ''id,name\<newline>1,Ann\<newline>2,Bo''))
     = [NewRow [''id'', ''name''] [''2'', ''Bo'']]
   \<and> concat (map emitted (run csv \<lparr>lastSize = 14, headers = [''id'', ''name'']\<rparr>
      [(Change, Some ''id,name\<newline>1,Ann\<newline>2,Bo''),
       (Change, Some ''id,name\<newline>1,Ann\<newline>2,Bob\<newline>'')]))
     = [NewRow [''id'', ''name''] [''2'', ''Bo''], NewRow [''id'', ''name''] [''b'']]
   \<and> emitted (watch_callback csv \<lparr>lastSize = 14, headers = [''id'', ''name'']\<rparr> Change
      (Some ''id,name\<newline>1,Ann\<newline>2,Bob\<newline>''))
     = [NewRow [''id'', ''name''] [''2'', ''Bob'']]"
  by (simp add: callback_defs csv_defs)

text \<open>
  When the file has grown between the stat and the read, the stream of line 114 delivers
  one byte past the size of the stat, since \<open>end\<close> is inclusive. With the file at 20 bytes
  when stat'ed and at 25 bytes when read, the parser gets the line \<open>2,Bob\<close> and the first
  byte of the next line, and ends with an error.
\<close>

lemma createReadStream_inclusive:
  "createReadStream (pre @ a @ c # rest) (length pre) (length (pre @ a)) = a @ [c]"
  by (simp add: createReadStream_def)

lemma stream_reads_past_stat_size:
  "createReadStream ''id,name\<newline>1,Ann\<newline>2,Bob\<newline>3,Cy\<newline>'' 14 20 = ''2,Bob\<newline>3''
   \<and> thrown (callback csv \<lparr>lastSize = 14, headers = [''id'', ''name'']\<rparr> Change
        \<lparr>stat_size = Some 20, range_bytes = ''id,name\<newline>1,Ann\<newline>2,Bob\<newline>3,Cy\<newline>'',
         header_bytes = ''id,name\<newline>1,Ann\<newline>2,Bob\<newline>3,Cy\<newline>''\<rparr>)
      = Some (InvalidRecordLength 2 1)"
  by (simp add: callback_defs csv_defs)



section \<open>The search\<close>

lemma starts_with_iff: "starts_with s t \<longleftrightarrow> (\<exists>q. s = t @ q)"
  by (induction s t rule: starts_with.induct) auto

lemma str_includes_iff: "str_includes s t \<longleftrightarrow> (\<exists>p q. s = p @ t @ q)"
proof (induction s)
  case Nil
  show ?case by (auto simp: starts_with_iff)
next
  case (Cons a s)
  show ?case
  proof
    assume "str_includes (a # s) t"
    then consider "starts_with (a # s) t" | "str_includes s t" by auto
    then show "\<exists>p q. a # s = p @ t @ q"
    proof cases
      case 1
      then obtain q where "a # s = t @ q" by (auto simp: starts_with_iff)
      then have "a # s = [] @ t @ q" by simp
      then show ?thesis by blast
    next
      case 2
      then obtain p q where "s = p @ t @ q" using Cons.IH by auto
      then have "a # s = (a # p) @ t @ q" by simp
      then show ?thesis by blast
    qed
  next
    assume "\<exists>p q. a # s = p @ t @ q"
    then obtain p q where pq: "a # s = p @ t @ q" by auto
    show "str_includes (a # s) t"
    proof (cases p)
      case Nil
      then have "starts_with (a # s) t" using pq by (auto simp: starts_with_iff)
      then show ?thesis by simp
    next
      case (Cons b p')
      then have "s = p' @ t @ q" using pq by simp
      then have "str_includes s t" using Cons.IH by blast
      then show ?thesis by simp
    qed
  qed
qed

lemma found_iff:
  "found lower l r \<longleftrightarrow> (\<exists>v \<in> set (Object_values r). \<exists>p q. lower v = p @ l @ q)"
  by (simp add: found_def list_ex_iff str_includes_iff)

text \<open>
  C10 (search membership). The results are the parsed records, in their order, of which
  some field value, lowercased, has the lowercased search term as a contiguous part. The
  display is the message that nothing matched when there is no such record, and else the
  table of the values of exactly these records with their count. Two search terms with
  the same lowercase form give the same display.
\<close>

theorem search_membership:
  "search_results lower parsed term =
      filter (\<lambda>r. \<exists>v \<in> set (Object_values r). \<exists>p q. lower v = p @ lower term @ q) parsed
   \<and> handleSearch lower parsed term =
      (if search_results lower parsed term = [] then NoMatchingRows
       else ResultTable (Object_keys (hd (search_results lower parsed term)))
              (map Object_values (search_results lower parsed term))
              (length (search_results lower parsed term)))
   \<and> (lower term' = lower term \<longrightarrow>
        handleSearch lower parsed term' = handleSearch lower parsed term)"
proof (intro conjI impI)
  show "search_results lower parsed term =
      filter (\<lambda>r. \<exists>v \<in> set (Object_values r). \<exists>p q. lower v = p @ lower term @ q) parsed"
    unfolding search_results_def by (rule filter_cong) (simp_all add: found_iff)
  show "handleSearch lower parsed term =
      (if search_results lower parsed term = [] then NoMatchingRows
       else ResultTable (Object_keys (hd (search_results lower parsed term)))
              (map Object_values (search_results lower parsed term))
              (length (search_results lower parsed term)))"
    by (simp add: handleSearch_def split: list.splits)
  show "handleSearch lower parsed term' = handleSearch lower parsed term"
    if "lower term' = lower term"
    using that by (simp add: handleSearch_def search_results_def)
qed

theorem search_membership_witness:
  "ascii_toLowerCase ''AN'' = ascii_toLowerCase ''an''
   \<and> search_results ascii_toLowerCase
        [[(''id'', ''1''), (''name'', ''Ann'')], [(''id'', ''2''), (''name'', ''Bob'')]] ''AN''
      = [[(''id'', ''1''), (''name'', ''Ann'')]]
   \<and> handleSearch ascii_toLowerCase
        [[(''id'', ''1''), (''name'', ''Ann'')], [(''id'', ''2''), (''name'', ''Bob'')]] ''AN''
      = ResultTable [''id'', ''name''] [[''1'', ''Ann'']] 1
   \<and> handleSearch ascii_toLowerCase
        [[(''id'', ''1''), (''name'', ''Ann'')], [(''id'', ''2''), (''name'', ''Bob'')]] ''an''
      = ResultTable [''id'', ''name''] [[''1'', ''Ann'']] 1
   \<and> handleSearch ascii_toLowerCase
        [[(''id'', ''1''), (''name'', ''Ann'')], [(''id'', ''2''), (''name'', ''Bob'')]] ''x''
      = NoMatchingRows"
proof -
  let ?P = "[[(''id'', ''1''), (''name'', ''Ann'')], [(''id'', ''2''), (''name'', ''Bob'')]]"
  have low: "ascii_toLowerCase ''AN'' = ascii_toLowerCase ''an''"
    by code_simp
  have res: "search_results ascii_toLowerCase ?P ''AN'' = [[(''id'', ''1''), (''name'', ''Ann'')]]"
    by code_simp
  have base: "handleSearch ascii_toLowerCase ?P ''an''
      = ResultTable [''id'', ''name''] [[''1'', ''Ann'']] 1"
    by code_simp
  have none: "handleSearch ascii_toLowerCase ?P ''x'' = NoMatchingRows"
    by code_simp
  have "handleSearch ascii_toLowerCase ?P ''AN'' = handleSearch ascii_toLowerCase ?P ''an''"
    using search_membership [of ascii_toLowerCase ?P "''an''" "''AN''"] low by blast
  then show ?thesis
    using low res base none by (simp only: simp_thms)
qed

end
